theory Spec2Isabelle
  imports Main "HOL-Library.Word" "HOL-Library.Signed_Division"
begin

unbundle bit_operations_syntax

section \<open>Delay.c: the SysTick busy-wait delays\<close>

type_synonym uint32_t = "32 word"

text \<open>
  The SysTick registers that \<open>Delay_us\<close> touches are volatile: a write goes to the counter
  hardware, and a read of \<open>CTRL\<close> returns what the hardware answers at that moment. The
  hardware is a parameter of the model: some state \<open>'h\<close> and what each access does to it.
  Nothing is assumed about it; time passes inside the accesses.
\<close>

record 'h SysTick_Type =
  write_CTRL :: "uint32_t \<Rightarrow> 'h \<Rightarrow> 'h"
  write_LOAD :: "uint32_t \<Rightarrow> 'h \<Rightarrow> 'h"
  write_VAL :: "uint32_t \<Rightarrow> 'h \<Rightarrow> 'h"
  read_CTRL :: "'h \<Rightarrow> uint32_t \<times> 'h"

text \<open>
  Lines 49 to 52 of \<open>Delay_us\<close>: the tick count, computed on \<open>uint32_t\<close> (so \<open>*\<close> wraps
  modulo \<open>2 ^ 32\<close>, \<open>div\<close> and \<open>>\<close> are unsigned), then the clamp to the 24-bit maximum.
  \<open>SystemCoreClock\<close> is the vendor library's global; it is a parameter here.
\<close>

definition Delay_us_ticks :: "uint32_t \<Rightarrow> uint32_t \<Rightarrow> uint32_t" where
  "Delay_us_ticks SystemCoreClock xus =
     (let ticks = SystemCoreClock div 1000000 * xus
      in if ticks > 0xFFFFFF then 0xFFFFFF else ticks)"

text \<open>
  Line 60, \<open>while(!(SysTick->CTRL & 0x00010000));\<close>: read \<open>CTRL\<close> until the hardware
  shows COUNTFLAG. The loop need not end, so it returns an option and \<open>None\<close> is "never
  returns".
\<close>

partial_function (option) wait_COUNTFLAG :: "'h SysTick_Type \<Rightarrow> 'h \<Rightarrow> 'h option" where
  "wait_COUNTFLAG SysTick h =
     (case read_CTRL SysTick h of
        (ctrl, h') \<Rightarrow> if ctrl AND 0x00010000 \<noteq> 0 then Some h' else wait_COUNTFLAG SysTick h')"

declare wait_COUNTFLAG.simps [code]

definition Delay_us :: "'h SysTick_Type \<Rightarrow> uint32_t \<Rightarrow> uint32_t \<Rightarrow> 'h \<Rightarrow> 'h option" where
  "Delay_us SysTick SystemCoreClock xus h =
     (let ticks = Delay_us_ticks SystemCoreClock xus;
          h = write_LOAD SysTick ticks h;
          h = write_VAL SysTick 0x00 h;
          h = write_CTRL SysTick 0x00000005 h
      in case wait_COUNTFLAG SysTick h of
           None \<Rightarrow> None
         | Some h \<Rightarrow> Some (write_CTRL SysTick 0x00000004 h))"

text \<open>
  \<open>while(xms--) Delay_us(1000);\<close> on a \<open>uint32_t\<close>: the test reads the old value, so the body
  runs while it is not zero, each time with the value one smaller.
\<close>

function Delay_ms :: "'h SysTick_Type \<Rightarrow> uint32_t \<Rightarrow> uint32_t \<Rightarrow> 'h \<Rightarrow> 'h option" where
  "Delay_ms SysTick SystemCoreClock xms h =
     (if xms \<noteq> 0
      then (case Delay_us SysTick SystemCoreClock 1000 h of
              None \<Rightarrow> None
            | Some h' \<Rightarrow> Delay_ms SysTick SystemCoreClock (xms - 1) h')
      else Some h)"
  by pat_completeness auto
termination
  by (relation "measure (\<lambda>(SysTick, clk, xms, h). unat xms)")
     (auto simp: unat_minus_one unat_gt_0)

declare Delay_ms.simps [simp del]

function Delay_s :: "'h SysTick_Type \<Rightarrow> uint32_t \<Rightarrow> uint32_t \<Rightarrow> 'h \<Rightarrow> 'h option" where
  "Delay_s SysTick SystemCoreClock xs h =
     (if xs \<noteq> 0
      then (case Delay_ms SysTick SystemCoreClock 1000 h of
              None \<Rightarrow> None
            | Some h' \<Rightarrow> Delay_s SysTick SystemCoreClock (xs - 1) h')
      else Some h)"
  by pat_completeness auto
termination
  by (relation "measure (\<lambda>(SysTick, clk, xs, h). unat xs)")
     (auto simp: unat_minus_one unat_gt_0)

declare Delay_s.simps [simp del]

text \<open>
  What "\<open>n\<close> invocations of \<open>f\<close>, one after the other" means for a call that may not return:
  the next invocation starts from the state the previous one left, and none starts after
  one that did not return.
\<close>

fun invocations :: "nat \<Rightarrow> ('s \<Rightarrow> 's option) \<Rightarrow> 's \<Rightarrow> 's option" where
  "invocations 0 f s = Some s"
| "invocations (Suc n) f s = (case f s of None \<Rightarrow> None | Some s' \<Rightarrow> invocations n f s')"

text \<open>
  Two pieces of hardware to run the delays on. Both only record the accesses made to them, in
  order. The first answers every read of \<open>CTRL\<close> with COUNTFLAG raised, the second never
  raises it.
\<close>

datatype access = Write_CTRL uint32_t | Write_LOAD uint32_t | Write_VAL uint32_t | Read_CTRL

definition flag_at_once :: "access list SysTick_Type" where
  "flag_at_once =
     \<lparr>write_CTRL = (\<lambda>v h. h @ [Write_CTRL v]),
      write_LOAD = (\<lambda>v h. h @ [Write_LOAD v]),
      write_VAL = (\<lambda>v h. h @ [Write_VAL v]),
      read_CTRL = (\<lambda>h. (0x00010005, h @ [Read_CTRL]))\<rparr>"

definition flag_never :: "access list SysTick_Type" where
  "flag_never =
     \<lparr>write_CTRL = (\<lambda>v h. h @ [Write_CTRL v]),
      write_LOAD = (\<lambda>v h. h @ [Write_LOAD v]),
      write_VAL = (\<lambda>v h. h @ [Write_VAL v]),
      read_CTRL = (\<lambda>h. (0x00000005, h @ [Read_CTRL]))\<rparr>"

text \<open>The accesses of one \<open>Delay_us\<close> call that finds the flag at its first read.\<close>

definition Delay_us_accesses :: "uint32_t \<Rightarrow> uint32_t \<Rightarrow> access list" where
  "Delay_us_accesses SystemCoreClock xus =
     [Write_LOAD (Delay_us_ticks SystemCoreClock xus), Write_VAL 0, Write_CTRL 5, Read_CTRL,
      Write_CTRL 4]"

section \<open>main.c: the breathing-ramp loop\<close>

text \<open>
  The calls \<open>main\<close> makes into the LED driver and the delay module, in the order it makes
  them. \<open>Delay_us\<close> takes a \<open>uint32_t\<close>, so the recorded argument is the converted value.
  The calls are recorded, not run: the variables of \<open>main\<close> do not depend on what they do, and
  an iteration is taken to complete, that is, its delays to return.
\<close>

datatype call = LED_Init | LED_On_1 | LED_Off_1 | LED_On_2 | LED_Off_2 | Call_Delay_us uint32_t

text \<open>
  The three \<open>static int\<close> variables of \<open>main\<close> and the calls made so far. C's \<open>int\<close> is
  modelled by \<open>int\<close>; \<open>main_int_range\<close> below shows that no value the loop computes leaves the
  32-bit signed range, so no overflow is hidden.
\<close>

record BreathState =
  brightness :: int
  direction :: int
  counter :: int
  calls :: "call list"

definition PWM_CYCLE :: int where "PWM_CYCLE = 500"
definition BRIGHTNESS_MAX :: int where "BRIGHTNESS_MAX = 255"
definition UPDATE_EVERY :: int where "UPDATE_EVERY = 15"
definition STEP :: int where "STEP = 1"

text \<open>Lines 52 and 53; \<open>/\<close> on C's \<open>int\<close> truncates towards zero, which is \<open>sdiv\<close>.\<close>

definition on_time :: "int \<Rightarrow> int" where
  "on_time b = (b * PWM_CYCLE) sdiv BRIGHTNESS_MAX"

definition off_time :: "int \<Rightarrow> int" where
  "off_time b = PWM_CYCLE - on_time b"

definition do_call :: "call \<Rightarrow> BreathState \<Rightarrow> BreathState" where
  "do_call c s = s\<lparr>calls := calls s @ [c]\<rparr>"

text \<open>Lines 56 to 63: one PWM period.\<close>

definition pwm_period :: "BreathState \<Rightarrow> BreathState" where
  "pwm_period s =
     (let s = (if on_time (brightness s) > 0
               then do_call (Call_Delay_us (word_of_int (on_time (brightness s)))) (do_call LED_On_2 s)
               else s);
          s = (if off_time (brightness s) > 0
               then do_call (Call_Delay_us (word_of_int (off_time (brightness s)))) (do_call LED_Off_2 s)
               else s)
      in s)"

text \<open>Lines 66 to 82: the counter and, every \<open>UPDATE_EVERY\<close> periods, the brightness step.\<close>

definition update_brightness :: "BreathState \<Rightarrow> BreathState" where
  "update_brightness s =
     (let s = s\<lparr>counter := counter s + 1\<rparr>
      in if counter s \<ge> UPDATE_EVERY
         then (let s = s\<lparr>counter := 0\<rparr>;
                   s = s\<lparr>brightness := brightness s + direction s * STEP\<rparr>
               in if brightness s \<ge> 255
                  then do_call LED_On_1 (s\<lparr>direction := - 1, brightness := 255\<rparr>)
                  else if brightness s \<le> 0
                  then do_call LED_Off_1 (s\<lparr>direction := 1, brightness := 0\<rparr>)
                  else s)
         else s)"

definition loop_body :: "BreathState \<Rightarrow> BreathState" where
  "loop_body s = update_brightness (pwm_period s)"

text \<open>
  \<open>while(1)\<close> never ends; \<open>main_loop n\<close> is the state after its first \<open>n\<close> iterations.
  \<open>main n\<close> starts it as \<open>main\<close> does: the initialisers of lines 42 to 44, then \<open>LED_Init\<close>.
\<close>

fun main_loop :: "nat \<Rightarrow> BreathState \<Rightarrow> BreathState" where
  "main_loop 0 s = s"
| "main_loop (Suc n) s = main_loop n (loop_body s)"

definition main_start :: BreathState where
  "main_start = do_call LED_Init \<lparr>brightness = 0, direction = 1, counter = 0, calls = []\<rparr>"

definition main :: "nat \<Rightarrow> BreathState" where
  "main n = main_loop n main_start"

text \<open>The calls made during the iteration that starts in \<open>s\<close>, and those of them to LED1.\<close>

definition iteration_calls :: "BreathState \<Rightarrow> call list" where
  "iteration_calls s = drop (length (calls s)) (calls (loop_body s))"

definition LED1_calls :: "call list \<Rightarrow> call list" where
  "LED1_calls cs = filter (\<lambda>c. c = LED_On_1 \<or> c = LED_Off_1) cs"

text \<open>
  Counting, over the first \<open>n\<close> iterations, the iterations in which \<open>direction\<close> changed
  (\<open>flips\<close>) and those in which \<open>brightness\<close> moved onto 0 or 255 (\<open>touches\<close>).
\<close>

fun flips :: "nat \<Rightarrow> nat" where
  "flips 0 = 0"
| "flips (Suc n) =
     flips n + (if direction (main (Suc n)) \<noteq> direction (main n) then 1 else 0)"

fun touches :: "nat \<Rightarrow> nat" where
  "touches 0 = 0"
| "touches (Suc n) =
     touches n +
     (if brightness (main (Suc n)) \<noteq> brightness (main n) \<and>
         (brightness (main (Suc n)) = 0 \<or> brightness (main (Suc n)) = 255)
      then 1 else 0)"

text \<open>
  The calls of one PWM period at brightness \<open>b\<close> as the specification words them: the
  output high for \<open>on_time\<close>, then low for \<open>off_time\<close>, a phase of duration zero left out.
\<close>

definition pwm_calls :: "int \<Rightarrow> call list" where
  "pwm_calls b =
     (if on_time b > 0 then [LED_On_2, Call_Delay_us (word_of_int (on_time b))] else []) @
     (if off_time b > 0 then [LED_Off_2, Call_Delay_us (word_of_int (off_time b))] else [])"

text \<open>
  The invariant of the loop: while rising the brightness is below the maximum, while falling
  it is above the minimum, and the counter is below its threshold.
\<close>

definition ramp_inv :: "BreathState \<Rightarrow> bool" where
  "ramp_inv s \<longleftrightarrow>
     (direction s = 1 \<and> 0 \<le> brightness s \<and> brightness s \<le> 254 \<or>
      direction s = - 1 \<and> 1 \<le> brightness s \<and> brightness s \<le> 255) \<and>
     0 \<le> counter s \<and> counter s < UPDATE_EVERY"

section \<open>The tick count of \<open>Delay_us\<close>\<close>

lemma Delay_us_ticks_unat:
  "unat (Delay_us_ticks clk xus) =
     (let t = (unat (clk div 1000000) * unat xus) mod 2 ^ 32
      in if t > 0xFFFFFF then 0xFFFFFF else t)"
  by (simp add: Delay_us_ticks_def Let_def word_less_nat_alt unat_word_ariths)

text \<open>Requests within the counter's range are loaded exactly.\<close>

lemma Delay_us_ticks_in_range:
  assumes "unat (clk div 1000000) * unat xus \<le> 0xFFFFFF"
  shows "unat (Delay_us_ticks clk xus) = unat (clk div 1000000) * unat xus"
proof -
  have "unat (clk div 1000000) * unat xus < 2 ^ 32" using assms by simp
  then have "(unat (clk div 1000000) * unat xus) mod 2 ^ 32 = unat (clk div 1000000) * unat xus"
    by simp
  with assms show ?thesis by (simp add: Delay_us_ticks_unat Let_def)
qed

text \<open>Requests beyond the range whose product still fits 32 bits are clamped.\<close>

lemma Delay_us_ticks_clamped:
  assumes "0xFFFFFF < unat (clk div 1000000) * unat xus"
    and "unat (clk div 1000000) * unat xus < 2 ^ 32"
  shows "Delay_us_ticks clk xus = 0xFFFFFF"
proof -
  have "(unat (clk div 1000000) * unat xus) mod 2 ^ 32 = unat (clk div 1000000) * unat xus"
    using assms(2) by simp
  with assms(1) have "unat (Delay_us_ticks clk xus) = unat (0xFFFFFF :: uint32_t)"
    by (simp add: Delay_us_ticks_unat Let_def)
  then show ?thesis by (simp only: word_unat_eq_iff)
qed

text \<open>
  Ten seconds at 168 MHz, the clock the source names, is such a request:
  \<open>168 * 10000000\<close> is below \<open>2 ^ 32\<close>.
\<close>

lemma Delay_us_ticks_ten_seconds: "Delay_us_ticks 168000000 10000000 = 0xFFFFFF"
  by (simp add: Delay_us_ticks_def)

text \<open>
  C3. Every request beyond the counter's range is to be cut to the maximum \<open>0xFFFFFF\<close>, as
  the header of \<open>Delay_us\<close> promises. At 168 MHz the request of 25565282 microseconds needs
  \<open>4294967376\<close> ticks, far beyond the 24-bit range; the product wraps to 80 before the clamp
  looks at it, and 80 is what is loaded.
\<close>

theorem Delay_us_ticks_wrapped_request:
  "0xFFFFFF < unat (168000000 div 1000000 :: uint32_t) * unat (25565282 :: uint32_t)
   \<and> Delay_us_ticks 168000000 25565282 = 80
   \<and> Delay_us_ticks 168000000 25565282 \<noteq> 0xFFFFFF"
  by (simp add: Delay_us_ticks_def)

text \<open>
  C10. The product is taken on \<open>uint32_t\<close> before the clamp: for every request the value
  compared with \<open>0xFFFFFF\<close> is the product modulo \<open>2 ^ 32\<close>. So when the true product
  reaches \<open>2 ^ 32\<close> and its remainder is below \<open>0xFFFFFF\<close>, the clamp does not engage: the
  remainder is loaded, it is below the counter's maximum, and it is less than a 256th of the
  ticks asked for. How far below the maximum is not fixed: it can be a few ticks.
\<close>

theorem Delay_us_ticks_wraps:
  "unat (Delay_us_ticks clk xus) =
     (let t = (unat (clk div 1000000) * unat xus) mod 2 ^ 32
      in if 0xFFFFFF < t then 0xFFFFFF else t)
   \<and> (2 ^ 32 \<le> unat (clk div 1000000) * unat xus
        \<and> (unat (clk div 1000000) * unat xus) mod 2 ^ 32 < 0xFFFFFF \<longrightarrow>
      unat (Delay_us_ticks clk xus) = (unat (clk div 1000000) * unat xus) mod 2 ^ 32
      \<and> Delay_us_ticks clk xus < 0xFFFFFF
      \<and> 256 * unat (Delay_us_ticks clk xus) < unat (clk div 1000000) * unat xus)"
proof -
  let ?p = "unat (clk div 1000000) * unat xus"
  have wrapped: "unat (Delay_us_ticks clk xus) = ?p mod 2 ^ 32
      \<and> Delay_us_ticks clk xus < 0xFFFFFF \<and> 256 * unat (Delay_us_ticks clk xus) < ?p"
    if big: "2 ^ 32 \<le> ?p" and low: "?p mod 2 ^ 32 < 0xFFFFFF"
  proof -
    have a: "unat (Delay_us_ticks clk xus) = ?p mod 2 ^ 32"
      using low by (simp add: Delay_us_ticks_unat Let_def)
    have b: "Delay_us_ticks clk xus < 0xFFFFFF"
      using low a by (simp add: word_less_nat_alt)
    have "256 * (?p mod 2 ^ 32) < 2 ^ 32" using low by simp
    then have c: "256 * unat (Delay_us_ticks clk xus) < ?p" using big a by linarith
    from a b c show ?thesis by simp
  qed
  have formula: "unat (Delay_us_ticks clk xus) =
      (let t = ?p mod 2 ^ 32 in if 0xFFFFFF < t then 0xFFFFFF else t)"
    by (rule Delay_us_ticks_unat)
  from formula wrapped show ?thesis by blast
qed

theorem Delay_us_ticks_wraps_witness:
  "2 ^ 32 \<le> unat (168000000 div 1000000 :: uint32_t) * unat (25565282 :: uint32_t)
   \<and> (unat (168000000 div 1000000 :: uint32_t) * unat (25565282 :: uint32_t)) mod 2 ^ 32 < 0xFFFFFF
   \<and> unat (Delay_us_ticks 168000000 25565282) = 80
   \<and> Delay_us_ticks 168000000 25565282 < 0xFFFFFF"
  using Delay_us_ticks_wraps [of 168000000 25565282] by simp

text \<open>
  A wrapped request that lands just under the clamp: at 168 MHz, 179056835 microseconds need
  \<open>30081548280\<close> ticks, which wrap to \<open>0xFFFFF8\<close>, seven ticks below the maximum.
\<close>

theorem Delay_us_ticks_wrap_near_maximum:
  "2 ^ 32 \<le> unat (168000000 div 1000000 :: uint32_t) * unat (179056835 :: uint32_t)
   \<and> (unat (168000000 div 1000000 :: uint32_t) * unat (179056835 :: uint32_t)) mod 2 ^ 32 < 0xFFFFFF
   \<and> Delay_us_ticks 168000000 179056835 = 0xFFFFF8
   \<and> unat (0xFFFFFF :: uint32_t) - unat (Delay_us_ticks 168000000 179056835) = 7"
  by (simp add: Delay_us_ticks_def)

section \<open>The busy-wait of \<open>Delay_us\<close>\<close>

text \<open>
  The loop returns only after a read of \<open>CTRL\<close> that showed COUNTFLAG, and never when no read
  shows it.
\<close>

lemma wait_COUNTFLAG_Some:
  assumes "wait_COUNTFLAG SysTick h = Some h'"
  shows "\<exists>h0. fst (read_CTRL SysTick h0) AND 0x00010000 \<noteq> 0 \<and> h' = snd (read_CTRL SysTick h0)"
proof (rule wait_COUNTFLAG.raw_induct
    [where P = "\<lambda>SysTick h h'. \<exists>h0. fst (read_CTRL SysTick h0) AND 0x00010000 \<noteq> 0
        \<and> h' = snd (read_CTRL SysTick h0)", OF _ assms])
  fix wait :: "'a SysTick_Type \<Rightarrow> 'a \<Rightarrow> 'a option" and SysTick h h'
  assume ih: "\<And>SysTick h h'. wait SysTick h = Some h' \<Longrightarrow>
      \<exists>h0. fst (read_CTRL SysTick h0) AND 0x00010000 \<noteq> 0 \<and> h' = snd (read_CTRL SysTick h0)"
    and eq: "(case read_CTRL SysTick h of
        (ctrl, h') \<Rightarrow> if ctrl AND 0x00010000 \<noteq> 0 then Some h' else wait SysTick h') = Some h'"
  show "\<exists>h0. fst (read_CTRL SysTick h0) AND 0x00010000 \<noteq> 0 \<and> h' = snd (read_CTRL SysTick h0)"
  proof (cases "fst (read_CTRL SysTick h) AND 0x00010000 \<noteq> 0")
    case True
    with eq have "h' = snd (read_CTRL SysTick h)" by (simp add: case_prod_beta)
    with True show ?thesis by blast
  next
    case False
    with eq have "wait SysTick (snd (read_CTRL SysTick h)) = Some h'"
      by (simp add: case_prod_beta)
    then show ?thesis by (rule ih)
  qed
qed

lemma wait_COUNTFLAG_never:
  assumes "\<And>h. fst (read_CTRL SysTick h) AND 0x00010000 = 0"
  shows "wait_COUNTFLAG SysTick h = None"
proof (cases "wait_COUNTFLAG SysTick h")
  case None
  then show ?thesis .
next
  case (Some h')
  from wait_COUNTFLAG_Some [OF Some] assms show ?thesis by auto
qed

lemma wait_COUNTFLAG_raised:
  assumes "fst (read_CTRL SysTick h) AND 0x00010000 \<noteq> 0"
  shows "wait_COUNTFLAG SysTick h = Some (snd (read_CTRL SysTick h))"
  using assms by (subst wait_COUNTFLAG.simps) (simp add: case_prod_beta)

text \<open>
  A request of 0 microseconds takes the same path as any other: 0 is loaded, the counter is
  started and the flag is awaited. Whether the call returns is then the hardware's matter: it
  does not on a counter that never raises the flag, it does on one that raises it at once.
\<close>

lemma Delay_us_ticks_zero: "Delay_us_ticks clk 0 = 0"
  by (simp add: Delay_us_ticks_def)

lemma Delay_us_zero:
  "Delay_us SysTick clk 0 h =
     (case wait_COUNTFLAG SysTick (write_CTRL SysTick 5 (write_VAL SysTick 0 (write_LOAD SysTick 0 h))) of
        None \<Rightarrow> None
      | Some h \<Rightarrow> Some (write_CTRL SysTick 4 h))"
  by (simp add: Delay_us_def Delay_us_ticks_zero)

lemma Delay_us_flag_never: "Delay_us flag_never clk xus h = None"
proof -
  have "wait_COUNTFLAG flag_never h = None" for h
    by (rule wait_COUNTFLAG_never) (simp add: flag_never_def)
  then show ?thesis by (simp add: Delay_us_def)
qed

lemma Delay_us_flag_at_once:
  "Delay_us flag_at_once clk xus h = Some (h @ Delay_us_accesses clk xus)"
proof -
  have "wait_COUNTFLAG flag_at_once h = Some (h @ [Read_CTRL])" for h
    by (subst wait_COUNTFLAG_raised) (simp_all add: flag_at_once_def)
  then show ?thesis by (simp add: Delay_us_def Delay_us_accesses_def) (simp add: flag_at_once_def)
qed

section \<open>\<open>Delay_ms\<close> and \<open>Delay_s\<close> as repeated invocations\<close>

lemma invocations_add:
  "invocations (m + n) f s =
     (case invocations m f s of None \<Rightarrow> None | Some s' \<Rightarrow> invocations n f s')"
  by (induction m arbitrary: s) (auto split: option.splits)

lemma invocations_mult: "invocations (m * n) f s = invocations m (invocations n f) s"
  by (induction m arbitrary: s) (auto simp: invocations_add split: option.splits)

lemma invocations_recorded:
  assumes "\<And>h. f h = Some (h @ b)"
  shows "invocations n f h = Some (h @ concat (replicate n b))"
  by (induction n arbitrary: h) (simp_all add: assms)

lemma Delay_ms_invocations:
  "Delay_ms SysTick clk xms h = invocations (unat xms) (Delay_us SysTick clk 1000) h"
proof (induction SysTick clk xms h rule: Delay_ms.induct)
  case (1 SysTick clk xms h)
  show ?case
  proof (cases "xms = 0")
    case True
    then show ?thesis by (subst Delay_ms.simps) simp
  next
    case False
    then have u: "unat xms = Suc (unat (xms - 1))"
      by (simp add: unat_minus_one unat_gt_0)
    show ?thesis
      using False 1 by (subst Delay_ms.simps) (simp add: u split: option.splits)
  qed
qed

lemma Delay_s_invocations:
  "Delay_s SysTick clk xs h = invocations (unat xs) (Delay_ms SysTick clk 1000) h"
proof (induction SysTick clk xs h rule: Delay_s.induct)
  case (1 SysTick clk xs h)
  show ?case
  proof (cases "xs = 0")
    case True
    then show ?thesis by (subst Delay_s.simps) simp
  next
    case False
    then have u: "unat xs = Suc (unat (xs - 1))"
      by (simp add: unat_minus_one unat_gt_0)
    show ?thesis
      using False 1 by (subst Delay_s.simps) (simp add: u split: option.splits)
  qed
qed

lemma Delay_ms_eq:
  "Delay_ms SysTick clk xms = invocations (unat xms) (Delay_us SysTick clk 1000)"
  by (rule ext) (rule Delay_ms_invocations)

lemma Delay_s_eq:
  "Delay_s SysTick clk xs = invocations (unat xs) (Delay_ms SysTick clk 1000)"
  by (rule ext) (rule Delay_s_invocations)

lemma Delay_s_eq_us:
  "Delay_s SysTick clk xs = invocations (unat xs * 1000) (Delay_us SysTick clk 1000)"
proof -
  have "Delay_ms SysTick clk 1000 = invocations 1000 (Delay_us SysTick clk 1000)"
    using Delay_ms_eq [of SysTick clk 1000] by simp
  then show ?thesis by (auto simp: Delay_s_eq invocations_mult)
qed

text \<open>
  C4. \<open>Delay_ms x\<close> is \<open>x\<close> invocations of \<open>Delay_us 1000\<close>, one for each requested
  millisecond and not a thousand, and \<open>Delay_s x\<close> is \<open>x\<close> invocations of \<open>Delay_ms 1000\<close>,
  each of them 1000 invocations of \<open>Delay_us 1000\<close>; with
  argument 0 both return at once, the hardware untouched, having invoked nothing. This holds
  on any hardware, also when an invocation never returns. On the hardware that records its
  accesses the count can be read off: \<open>Delay_ms x\<close> leaves \<open>x\<close> times the accesses of one
  \<open>Delay_us 1000\<close>, \<open>Delay_s x\<close> leaves \<open>1000 * x\<close> times.
\<close>

theorem Delay_ms_Delay_s_invocations:
  "Delay_ms SysTick clk xms = invocations (unat xms) (Delay_us SysTick clk 1000)
   \<and> Delay_s SysTick clk xs = invocations (unat xs) (Delay_ms SysTick clk 1000)
   \<and> Delay_s SysTick clk xs = invocations (unat xs * 1000) (Delay_us SysTick clk 1000)
   \<and> Delay_ms SysTick clk 0 h = Some h
   \<and> Delay_s SysTick clk 0 h = Some h
   \<and> Delay_ms flag_at_once clk xms l =
       Some (l @ concat (replicate (unat xms) (Delay_us_accesses clk 1000)))
   \<and> Delay_s flag_at_once clk xs l =
       Some (l @ concat (replicate (unat xs * 1000) (Delay_us_accesses clk 1000)))"
proof -
  have d: "Delay_ms SysTick clk 0 h = Some h" by (simp add: Delay_ms_eq)
  have e: "Delay_s SysTick clk 0 h = Some h" by (simp add: Delay_s_eq)
  have f: "Delay_ms flag_at_once clk xms l =
       Some (l @ concat (replicate (unat xms) (Delay_us_accesses clk 1000)))"
    by (simp add: Delay_ms_eq invocations_recorded [OF Delay_us_flag_at_once])
  have g: "Delay_s flag_at_once clk xs l =
       Some (l @ concat (replicate (unat xs * 1000) (Delay_us_accesses clk 1000)))"
    by (simp add: Delay_s_eq_us invocations_recorded [OF Delay_us_flag_at_once])
  show ?thesis
    by (intro conjI) (rule Delay_ms_eq Delay_s_eq Delay_s_eq_us d e f g)+
qed

text \<open>
  One requested millisecond is one invocation of \<open>Delay_us 1000\<close>, five register accesses
  on the recording hardware; a loop of 1000 iterations for it would leave 5000.
\<close>

lemma length_concat_replicate: "length (concat (replicate n b)) = n * length b"
  by (induction n) simp_all

theorem Delay_ms_one_invocation_per_ms:
  "Delay_ms flag_at_once 168000000 1 [] = Some (Delay_us_accesses 168000000 1000)
   \<and> length (Delay_us_accesses 168000000 1000) = 5
   \<and> invocations 1000 (Delay_us flag_at_once 168000000 1000) [] =
       Some (concat (replicate 1000 (Delay_us_accesses 168000000 1000)))
   \<and> length (concat (replicate 1000 (Delay_us_accesses 168000000 1000))) = 5000
   \<and> Delay_ms flag_at_once 168000000 1 [] \<noteq>
       invocations 1000 (Delay_us flag_at_once 168000000 1000) []"
proof -
  have a: "Delay_ms flag_at_once 168000000 1 [] = Some (Delay_us_accesses 168000000 1000)"
    by (simp add: Delay_ms_eq invocations_recorded [OF Delay_us_flag_at_once])
  have b: "length (Delay_us_accesses 168000000 1000) = 5"
    by (simp add: Delay_us_accesses_def)
  have c: "invocations 1000 (Delay_us flag_at_once 168000000 1000) [] =
      Some (concat (replicate 1000 (Delay_us_accesses 168000000 1000)))"
    by (simp add: invocations_recorded [OF Delay_us_flag_at_once])
  have d: "length (concat (replicate 1000 (Delay_us_accesses 168000000 1000))) = 5000"
    by (simp add: length_concat_replicate b)
  have "Delay_us_accesses 168000000 1000 \<noteq> concat (replicate 1000 (Delay_us_accesses 168000000 1000))"
  proof
    assume "Delay_us_accesses 168000000 1000 = concat (replicate 1000 (Delay_us_accesses 168000000 1000))"
    then have "length (Delay_us_accesses 168000000 1000)
        = length (concat (replicate 1000 (Delay_us_accesses 168000000 1000)))"
      by (rule arg_cong)
    with b d show False by simp
  qed
  then have e: "Delay_ms flag_at_once 168000000 1 [] \<noteq>
      invocations 1000 (Delay_us flag_at_once 168000000 1000) []"
    unfolding a c by (simp only: option.inject not_False_eq_True)
  from a b c d e show ?thesis by (intro conjI)
qed

section \<open>The duty split\<close>

lemma on_time_div: "0 \<le> b \<Longrightarrow> on_time b = b * 500 div 255"
  by (simp add: on_time_def PWM_CYCLE_def BRIGHTNESS_MAX_def signed_divide_int_def sgn_if)

lemma on_time_bounds:
  assumes "0 \<le> b" "b \<le> 255"
  shows "0 \<le> on_time b \<and> on_time b \<le> 500"
  using assms by (simp add: on_time_div) linarith

lemma off_time_bounds:
  assumes "0 \<le> b" "b \<le> 255"
  shows "0 \<le> off_time b \<and> off_time b \<le> 500"
  using on_time_bounds [OF assms] by (simp add: off_time_def PWM_CYCLE_def)

lemma on_time_254: "on_time 254 = 498" "off_time 254 = 2"
  by (simp_all add: on_time_div off_time_def PWM_CYCLE_def)

text \<open>
  C2. For a brightness \<open>b\<close> from 0 to 255 and the cycle length 500, \<open>on_time\<close> is
  \<open>b * 500 / 255\<close> in integer division, \<open>off_time\<close> is the rest of the cycle, the two add up
  to the cycle and \<open>off_time\<close> is not negative.
\<close>

theorem duty_split:
  assumes "0 \<le> b" "b \<le> 255"
  shows "PWM_CYCLE = 500 \<and> on_time b = b * PWM_CYCLE div 255
       \<and> off_time b = PWM_CYCLE - on_time b
       \<and> on_time b + off_time b = PWM_CYCLE \<and> 0 \<le> off_time b"
  using assms off_time_bounds [OF assms]
  by (simp add: on_time_div off_time_def PWM_CYCLE_def)

theorem duty_split_witness:
  "(0::int) \<le> 254 \<and> (254::int) \<le> 255 \<and> on_time 254 = 498 \<and> off_time 254 = 2
   \<and> on_time 254 + off_time 254 = PWM_CYCLE \<and> 0 \<le> off_time 254"
  using duty_split [of 254] by (simp add: off_time_def PWM_CYCLE_def)

text \<open>The conversion of a duration to \<open>uint32_t\<close> at the call of \<open>Delay_us\<close> keeps its value.\<close>

lemma word_of_int_small:
  assumes "0 \<le> k" "k \<le> 500"
  shows "uint (word_of_int k :: uint32_t) = k"
proof -
  have "k < 2 ^ 32" using assms by simp
  with assms(1) show ?thesis by (simp add: uint_word_of_int)
qed

lemma word_of_int_small_nonzero:
  assumes "0 < k" "k \<le> 500"
  shows "(word_of_int k :: uint32_t) \<noteq> 0"
proof
  assume "(word_of_int k :: uint32_t) = 0"
  then have "uint (word_of_int k :: uint32_t) = 0" by simp
  with assms show False by (simp add: word_of_int_small)
qed

section \<open>One iteration of the loop\<close>

lemma main_loop_end: "main_loop (Suc n) s = loop_body (main_loop n s)"
  by (induction n arbitrary: s) simp_all

lemma main_Suc: "main (Suc n) = loop_body (main n)"
  unfolding main_def by (rule main_loop_end)

lemma main_0: "main 0 = main_start"
  by (simp add: main_def)

lemma pwm_period_fields:
  "brightness (pwm_period s) = brightness s"
  "direction (pwm_period s) = direction s"
  "counter (pwm_period s) = counter s"
  "calls (pwm_period s) = calls s @ pwm_calls (brightness s)"
  by (simp_all add: pwm_period_def pwm_calls_def do_call_def Let_def)

text \<open>The four ways through lines 66 to 82.\<close>

lemma update_brightness_hold:
  assumes "counter s + 1 < UPDATE_EVERY"
  shows "update_brightness s = s\<lparr>counter := counter s + 1\<rparr>"
  using assms by (simp add: update_brightness_def Let_def)

lemma update_brightness_max:
  assumes "UPDATE_EVERY \<le> counter s + 1" "255 \<le> brightness s + direction s * STEP"
  shows "update_brightness s =
           s\<lparr>counter := 0, direction := - 1, brightness := 255, calls := calls s @ [LED_On_1]\<rparr>"
  using assms by (simp add: update_brightness_def Let_def do_call_def)

lemma update_brightness_min:
  assumes "UPDATE_EVERY \<le> counter s + 1" "brightness s + direction s * STEP \<le> 0"
  shows "update_brightness s =
           s\<lparr>counter := 0, direction := 1, brightness := 0, calls := calls s @ [LED_Off_1]\<rparr>"
  using assms by (simp add: update_brightness_def Let_def do_call_def)

lemma update_brightness_mid:
  assumes "UPDATE_EVERY \<le> counter s + 1"
    "0 < brightness s + direction s * STEP" "brightness s + direction s * STEP < 255"
  shows "update_brightness s =
           s\<lparr>counter := 0, brightness := brightness s + direction s * STEP\<rparr>"
  using assms by (simp add: update_brightness_def Let_def)

lemma loop_body_hold:
  assumes "counter s + 1 < UPDATE_EVERY"
  shows "brightness (loop_body s) = brightness s" "direction (loop_body s) = direction s"
    "counter (loop_body s) = counter s + 1"
    "calls (loop_body s) = calls s @ pwm_calls (brightness s)"
  using assms by (simp_all add: loop_body_def update_brightness_hold pwm_period_fields)

lemma loop_body_max:
  assumes "UPDATE_EVERY \<le> counter s + 1" "255 \<le> brightness s + direction s * STEP"
  shows "brightness (loop_body s) = 255" "direction (loop_body s) = - 1"
    "counter (loop_body s) = 0"
    "calls (loop_body s) = calls s @ pwm_calls (brightness s) @ [LED_On_1]"
  using assms by (simp_all add: loop_body_def update_brightness_max pwm_period_fields)

lemma loop_body_min:
  assumes "UPDATE_EVERY \<le> counter s + 1" "brightness s + direction s * STEP \<le> 0"
  shows "brightness (loop_body s) = 0" "direction (loop_body s) = 1"
    "counter (loop_body s) = 0"
    "calls (loop_body s) = calls s @ pwm_calls (brightness s) @ [LED_Off_1]"
  using assms by (simp_all add: loop_body_def update_brightness_min pwm_period_fields)

lemma loop_body_mid:
  assumes "UPDATE_EVERY \<le> counter s + 1"
    "0 < brightness s + direction s * STEP" "brightness s + direction s * STEP < 255"
  shows "brightness (loop_body s) = brightness s + direction s * STEP"
    "direction (loop_body s) = direction s"
    "counter (loop_body s) = 0"
    "calls (loop_body s) = calls s @ pwm_calls (brightness s)"
  using assms by (simp_all add: loop_body_def update_brightness_mid pwm_period_fields)

lemma loop_body_cases:
  obtains (hold) "counter s + 1 < UPDATE_EVERY"
  | (max) "UPDATE_EVERY \<le> counter s + 1" "255 \<le> brightness s + direction s * STEP"
  | (min) "UPDATE_EVERY \<le> counter s + 1" "brightness s + direction s * STEP \<le> 0"
  | (mid) "UPDATE_EVERY \<le> counter s + 1"
      "0 < brightness s + direction s * STEP" "brightness s + direction s * STEP < 255"
  by linarith

subsection \<open>The calls of one iteration\<close>

lemma LED1_calls_append: "LED1_calls (xs @ ys) = LED1_calls xs @ LED1_calls ys"
  by (simp add: LED1_calls_def)

lemma LED1_calls_pwm_calls: "LED1_calls (pwm_calls b) = []"
  by (simp add: LED1_calls_def pwm_calls_def)

lemma LED1_calls_after_pwm:
  "LED1_calls (pwm_calls b @ [LED_On_1]) = [LED_On_1]"
  "LED1_calls (pwm_calls b @ [LED_Off_1]) = [LED_Off_1]"
  by (simp_all add: LED1_calls_append LED1_calls_pwm_calls) (simp_all add: LED1_calls_def)

lemma LED1_not_in_pwm_calls: "LED_On_1 \<notin> set (pwm_calls b)" "LED_Off_1 \<notin> set (pwm_calls b)"
  by (simp_all add: pwm_calls_def)

lemma pwm_calls_no_zero_delay:
  assumes "0 \<le> b" "b \<le> 255"
  shows "Call_Delay_us 0 \<notin> set (pwm_calls b)"
proof -
  have "(word_of_int (on_time b) :: uint32_t) \<noteq> 0" if "0 < on_time b"
    using that on_time_bounds [OF assms] by (simp add: word_of_int_small_nonzero)
  moreover have "(word_of_int (off_time b) :: uint32_t) \<noteq> 0" if "0 < off_time b"
    using that off_time_bounds [OF assms] by (simp add: word_of_int_small_nonzero)
  ultimately show ?thesis by (auto simp: pwm_calls_def)
qed

lemma iteration_calls_hold:
  assumes "counter s + 1 < UPDATE_EVERY"
  shows "iteration_calls s = pwm_calls (brightness s)"
  by (simp add: iteration_calls_def loop_body_hold(4) [OF assms])

lemma iteration_calls_max:
  assumes "UPDATE_EVERY \<le> counter s + 1" "255 \<le> brightness s + direction s * STEP"
  shows "iteration_calls s = pwm_calls (brightness s) @ [LED_On_1]"
  by (simp add: iteration_calls_def loop_body_max(4) [OF assms])

lemma iteration_calls_min:
  assumes "UPDATE_EVERY \<le> counter s + 1" "brightness s + direction s * STEP \<le> 0"
  shows "iteration_calls s = pwm_calls (brightness s) @ [LED_Off_1]"
  by (simp add: iteration_calls_def loop_body_min(4) [OF assms])

lemma iteration_calls_mid:
  assumes "UPDATE_EVERY \<le> counter s + 1"
    "0 < brightness s + direction s * STEP" "brightness s + direction s * STEP < 255"
  shows "iteration_calls s = pwm_calls (brightness s)"
  by (simp add: iteration_calls_def loop_body_mid(4) [OF assms])

lemma calls_loop_body: "calls (loop_body s) = calls s @ iteration_calls s"
proof (cases s rule: loop_body_cases)
  case hold
  then show ?thesis by (simp add: iteration_calls_hold loop_body_hold)
next
  case max
  then show ?thesis by (simp add: iteration_calls_max loop_body_max)
next
  case min
  then show ?thesis by (simp add: iteration_calls_min loop_body_min)
next
  case mid
  then show ?thesis by (simp add: iteration_calls_mid loop_body_mid)
qed

lemma iteration_calls_split:
  "iteration_calls s = pwm_calls (brightness s) @ LED1_calls (iteration_calls s)"
proof (cases s rule: loop_body_cases)
  case hold
  then show ?thesis by (simp add: iteration_calls_hold LED1_calls_pwm_calls)
next
  case max
  then show ?thesis by (simp add: iteration_calls_max LED1_calls_after_pwm)
next
  case min
  then show ?thesis by (simp add: iteration_calls_min LED1_calls_after_pwm)
next
  case mid
  then show ?thesis by (simp add: iteration_calls_mid LED1_calls_pwm_calls)
qed


section \<open>The invariant of the ramp\<close>

lemma ramp_inv_brightness: "ramp_inv s \<Longrightarrow> 0 \<le> brightness s \<and> brightness s \<le> 255"
  by (auto simp: ramp_inv_def)

lemma ramp_inv_loop_body:
  assumes "ramp_inv s"
  shows "ramp_inv (loop_body s)"
proof (cases s rule: loop_body_cases)
  case hold
  with assms show ?thesis by (simp add: ramp_inv_def loop_body_hold)
next
  case max
  with assms show ?thesis by (simp add: ramp_inv_def loop_body_max UPDATE_EVERY_def)
next
  case min
  with assms show ?thesis by (simp add: ramp_inv_def loop_body_min UPDATE_EVERY_def)
next
  case mid
  with assms show ?thesis by (auto simp: ramp_inv_def loop_body_mid UPDATE_EVERY_def STEP_def)
qed

lemma ramp_inv_main: "ramp_inv (main n)"
proof (induction n)
  case 0
  show ?case by (simp add: main_0 main_start_def do_call_def ramp_inv_def UPDATE_EVERY_def)
next
  case (Suc n)
  then show ?case by (simp add: main_Suc ramp_inv_loop_body)
qed

lemma ramp_inv_next_brightness:
  assumes "ramp_inv s"
  shows "0 \<le> brightness s + direction s * STEP \<and> brightness s + direction s * STEP \<le> 255"
  using assms by (auto simp: ramp_inv_def STEP_def)

text \<open>
  Every value an iteration computes from a reachable state, each well inside the range of a
  32-bit \<open>int\<close>. The stepped brightness is within 0 and 255 before the boundary check
  already: with \<open>STEP = 1\<close> the two clamping assignments never change it.
\<close>

lemma main_int_range:
  "0 \<le> brightness (main n) * PWM_CYCLE \<and> brightness (main n) * PWM_CYCLE \<le> 127500
   \<and> 0 \<le> on_time (brightness (main n)) \<and> on_time (brightness (main n)) \<le> 500
   \<and> 0 \<le> off_time (brightness (main n)) \<and> off_time (brightness (main n)) \<le> 500
   \<and> 1 \<le> counter (main n) + 1 \<and> counter (main n) + 1 \<le> 15
   \<and> - 1 \<le> direction (main n) * STEP \<and> direction (main n) * STEP \<le> 1
   \<and> 0 \<le> brightness (main n) + direction (main n) * STEP
   \<and> brightness (main n) + direction (main n) * STEP \<le> 255"
proof -
  have inv: "ramp_inv (main n)" by (rule ramp_inv_main)
  then have b: "0 \<le> brightness (main n)" "brightness (main n) \<le> 255"
    by (simp_all add: ramp_inv_brightness)
  have "0 \<le> brightness (main n) * PWM_CYCLE \<and> brightness (main n) * PWM_CYCLE \<le> 127500"
    using b by (simp add: PWM_CYCLE_def)
  moreover have "1 \<le> counter (main n) + 1 \<and> counter (main n) + 1 \<le> 15"
    using inv by (simp add: ramp_inv_def UPDATE_EVERY_def)
  moreover have "- 1 \<le> direction (main n) * STEP \<and> direction (main n) * STEP \<le> 1"
    using inv by (auto simp: ramp_inv_def STEP_def)
  ultimately show ?thesis
    using on_time_bounds [OF b] off_time_bounds [OF b] ramp_inv_next_brightness [OF inv]
    by simp
qed

section \<open>The first ramp up and down\<close>

lemma main_rising:
  "n < 3825 \<Longrightarrow>
     brightness (main n) = int (n div 15) \<and> direction (main n) = 1 \<and>
     counter (main n) = int (n mod 15) \<and> LED1_calls (calls (main n)) = []"
proof (induction n)
  case 0
  show ?case by (simp add: main_0 main_start_def do_call_def LED1_calls_def)
next
  case (Suc n)
  then have ih: "brightness (main n) = int (n div 15)" "direction (main n) = 1"
    "counter (main n) = int (n mod 15)" "LED1_calls (calls (main n)) = []"
    by simp_all
  have n: "n div 15 * 15 + n mod 15 = n" by (rule div_mult_mod_eq)
  show ?case
  proof (cases "n mod 15 = 14")
    case True
    with Suc.prems n have "n div 15 \<le> 253" by linarith
    then have c: "UPDATE_EVERY \<le> counter (main n) + 1"
      "0 < brightness (main n) + direction (main n) * STEP"
      "brightness (main n) + direction (main n) * STEP < 255"
      using True by (simp_all add: ih UPDATE_EVERY_def STEP_def)
    have e: "Suc n div 15 = n div 15 + 1" "Suc n mod 15 = 0"
      using True by (simp_all add: div_Suc mod_Suc)
    show ?thesis
      by (simp add: main_Suc loop_body_mid [OF c] ih e STEP_def LED1_calls_append LED1_calls_pwm_calls)
  next
    case False
    have "n mod 15 < 15" by simp
    with False have c: "counter (main n) + 1 < UPDATE_EVERY"
      by (simp add: ih UPDATE_EVERY_def)
    have e: "Suc n div 15 = n div 15" "Suc n mod 15 = n mod 15 + 1"
      using False by (simp_all add: div_Suc mod_Suc)
    show ?thesis
      by (simp add: main_Suc loop_body_hold [OF c] ih e LED1_calls_append LED1_calls_pwm_calls)
  qed
qed

lemma main_before_peak:
  "brightness (main 3824) = 254" "direction (main 3824) = 1" "counter (main 3824) = 14"
  "LED1_calls (calls (main 3824)) = []"
  using main_rising [of 3824] by simp_all

lemma main_last_rising_step:
  "UPDATE_EVERY \<le> counter (main 3824) + 1"
  "255 \<le> brightness (main 3824) + direction (main 3824) * STEP"
  by (simp_all add: main_before_peak UPDATE_EVERY_def STEP_def)

lemma main_3825: "main 3825 = loop_body (main 3824)"
  using main_Suc [of 3824] by simp

lemma main_at_peak:
  "brightness (main 3825) = 255" "direction (main 3825) = - 1" "counter (main 3825) = 0"
  "LED1_calls (calls (main 3825)) = [LED_On_1]"
  "iteration_calls (main 3824) =
     [LED_On_2, Call_Delay_us 498, LED_Off_2, Call_Delay_us 2, LED_On_1]"
  using loop_body_max [OF main_last_rising_step] iteration_calls_max [OF main_last_rising_step]
  by (simp_all add: main_3825 main_before_peak LED1_calls_append LED1_calls_pwm_calls)
     (simp_all add: LED1_calls_def pwm_calls_def on_time_254)

lemma main_falling:
  "n < 3825 \<Longrightarrow>
     brightness (main (3825 + n)) = 255 - int (n div 15) \<and> direction (main (3825 + n)) = - 1 \<and>
     counter (main (3825 + n)) = int (n mod 15) \<and>
     LED1_calls (calls (main (3825 + n))) = [LED_On_1]"
proof (induction n)
  case 0
  show ?case by (simp add: main_at_peak)
next
  case (Suc n)
  let ?s = "main (3825 + n)"
  from Suc have ih: "brightness ?s = 255 - int (n div 15)" "direction ?s = - 1"
    "counter ?s = int (n mod 15)" "LED1_calls (calls ?s) = [LED_On_1]"
    by simp_all
  have n: "n div 15 * 15 + n mod 15 = n" by (rule div_mult_mod_eq)
  have next_state: "main (3825 + Suc n) = loop_body ?s"
    using main_Suc [of "3825 + n"] by simp
  show ?case
  proof (cases "n mod 15 = 14")
    case True
    with Suc.prems n have "n div 15 \<le> 253" by linarith
    then have c: "UPDATE_EVERY \<le> counter ?s + 1"
      "0 < brightness ?s + direction ?s * STEP"
      "brightness ?s + direction ?s * STEP < 255"
      using True by (simp_all add: ih UPDATE_EVERY_def STEP_def)
    have e: "Suc n div 15 = n div 15 + 1" "Suc n mod 15 = 0"
      using True by (simp_all add: div_Suc mod_Suc)
    show ?thesis
      unfolding next_state
      by (simp add: loop_body_mid [OF c] ih e STEP_def LED1_calls_append LED1_calls_pwm_calls)
  next
    case False
    have "n mod 15 < 15" by simp
    with False have c: "counter ?s + 1 < UPDATE_EVERY"
      by (simp add: ih UPDATE_EVERY_def)
    have e: "Suc n div 15 = n div 15" "Suc n mod 15 = n mod 15 + 1"
      using False by (simp_all add: div_Suc mod_Suc)
    show ?thesis
      unfolding next_state
      by (simp add: loop_body_hold [OF c] ih e LED1_calls_append LED1_calls_pwm_calls)
  qed
qed

lemma main_before_trough:
  "brightness (main 7649) = 1" "direction (main 7649) = - 1" "counter (main 7649) = 14"
  "LED1_calls (calls (main 7649)) = [LED_On_1]"
  using main_falling [of 3824] by simp_all

lemma main_last_falling_step:
  "UPDATE_EVERY \<le> counter (main 7649) + 1"
  "brightness (main 7649) + direction (main 7649) * STEP \<le> 0"
  by (simp_all add: main_before_trough UPDATE_EVERY_def STEP_def)

lemma main_7650: "main 7650 = loop_body (main 7649)"
  using main_Suc [of 7649] by simp

lemma on_time_1: "on_time 1 = 1" "off_time 1 = 499"
  by (simp_all add: on_time_div off_time_def PWM_CYCLE_def)

lemma main_at_trough:
  "brightness (main 7650) = 0" "direction (main 7650) = 1" "counter (main 7650) = 0"
  "LED1_calls (calls (main 7650)) = [LED_On_1, LED_Off_1]"
  "iteration_calls (main 7649) =
     [LED_On_2, Call_Delay_us 1, LED_Off_2, Call_Delay_us 499, LED_Off_1]"
  using loop_body_min [OF main_last_falling_step] iteration_calls_min [OF main_last_falling_step]
  by (simp_all add: main_7650 main_before_trough LED1_calls_append LED1_calls_pwm_calls)
     (simp_all add: LED1_calls_def pwm_calls_def on_time_1)

section \<open>Direction flips and boundary touches\<close>

lemma flip_iff_touch:
  assumes "ramp_inv s"
  shows "direction (loop_body s) \<noteq> direction s \<longleftrightarrow>
         brightness (loop_body s) \<noteq> brightness s \<and>
         (brightness (loop_body s) = 0 \<or> brightness (loop_body s) = 255)"
proof (cases s rule: loop_body_cases)
  case hold
  then show ?thesis by (simp add: loop_body_hold)
next
  case max
  note f = loop_body_max(1,2) [OF max]
  from assms max have "direction s = 1 \<and> brightness s = 254"
    by (auto simp: ramp_inv_def STEP_def)
  then show ?thesis by (simp add: f)
next
  case min
  note f = loop_body_min(1,2) [OF min]
  from assms min have "direction s = - 1 \<and> brightness s = 1"
    by (auto simp: ramp_inv_def STEP_def)
  then show ?thesis by (simp add: f)
next
  case mid
  note f = loop_body_mid(1,2) [OF mid]
  from assms mid have "brightness s + direction s * STEP \<noteq> brightness s"
    by (auto simp: ramp_inv_def STEP_def)
  with mid show ?thesis by (simp add: f)
qed

lemma brightness_monotone:
  assumes "ramp_inv s"
  shows "(direction s = 1 \<longrightarrow> brightness s \<le> brightness (loop_body s)) \<and>
         (direction s = - 1 \<longrightarrow> brightness (loop_body s) \<le> brightness s)"
proof (cases s rule: loop_body_cases)
  case hold
  show ?thesis by (simp add: loop_body_hold [OF hold])
next
  case max
  from assms max show ?thesis by (auto simp: loop_body_max [OF max] ramp_inv_def STEP_def)
next
  case min
  from assms min show ?thesis by (auto simp: loop_body_min [OF min] ramp_inv_def STEP_def)
next
  case mid
  show ?thesis by (simp add: loop_body_mid [OF mid] STEP_def)
qed

lemma flips_touches: "flips n = touches n"
proof (induction n)
  case 0
  show ?case by simp
next
  case (Suc n)
  have "direction (main (Suc n)) \<noteq> direction (main n) \<longleftrightarrow>
        brightness (main (Suc n)) \<noteq> brightness (main n) \<and>
        (brightness (main (Suc n)) = 0 \<or> brightness (main (Suc n)) = 255)"
    using flip_iff_touch [OF ramp_inv_main, of n] by (simp add: main_Suc)
  with Suc show ?case by simp
qed

text \<open>The count is not idle: the first peak is one flip.\<close>

lemma flips_rising: "n < 3825 \<Longrightarrow> flips n = 0"
proof (induction n)
  case 0
  show ?case by simp
next
  case (Suc n)
  then have "direction (main (Suc n)) = 1" "direction (main n) = 1"
    using main_rising [of "Suc n"] main_rising [of n] by simp_all
  with Suc show ?case by simp
qed

lemma flips_first_peak: "flips 3825 = 1"
proof -
  have e: "Suc 3824 = 3825" by simp
  have "flips 3824 = 0" by (rule flips_rising) simp
  with flips.simps(2) [of 3824, unfolded e] show ?thesis
    by (simp add: main_at_peak(2) main_before_peak(2))
qed

lemma calls_main_no_zero_delay: "Call_Delay_us 0 \<notin> set (calls (main n))"
proof (induction n)
  case 0
  show ?case by (simp add: main_0 main_start_def do_call_def)
next
  case (Suc n)
  have b: "0 \<le> brightness (main n)" "brightness (main n) \<le> 255"
    using ramp_inv_brightness [OF ramp_inv_main, of n] by simp_all
  have "Call_Delay_us 0 \<notin> set (pwm_calls (brightness (main n)))"
    by (rule pwm_calls_no_zero_delay [OF b])
  moreover have "Call_Delay_us 0 \<notin> set (LED1_calls (iteration_calls (main n)))"
    by (auto simp: LED1_calls_def)
  ultimately have "Call_Delay_us 0 \<notin> set (iteration_calls (main n))"
    by (subst iteration_calls_split) simp
  with Suc show ?case by (simp add: main_Suc calls_loop_body)
qed

section \<open>The claims about the loop\<close>

text \<open>
  C1. \<open>main\<close> starts with brightness 0, direction \<open>+1\<close> and counter 0. After any number of
  iterations the brightness is within 0 and 255 (also the stepped value, before the boundary
  check of lines 73 to 81 has looked at it), the direction is \<open>+1\<close> or \<open>-1\<close>, and the
  direction is negated by an iteration exactly when that iteration moves the brightness onto
  0 or onto 255.
\<close>

theorem main_ramp_invariant:
  "brightness (main 0) = 0 \<and> direction (main 0) = 1 \<and> counter (main 0) = 0
   \<and> 0 \<le> brightness (main n) \<and> brightness (main n) \<le> 255
   \<and> 0 \<le> brightness (main n) + direction (main n) * STEP
   \<and> brightness (main n) + direction (main n) * STEP \<le> 255
   \<and> (direction (main n) = 1 \<or> direction (main n) = - 1)
   \<and> (direction (main (Suc n)) = - direction (main n) \<longleftrightarrow>
        brightness (main (Suc n)) \<noteq> brightness (main n) \<and>
        (brightness (main (Suc n)) = 0 \<or> brightness (main (Suc n)) = 255))"
proof -
  have start: "brightness (main 0) = 0 \<and> direction (main 0) = 1 \<and> counter (main 0) = 0"
    by (simp add: main_0 main_start_def do_call_def)
  have inv: "ramp_inv (main n)" and inv': "ramp_inv (main (Suc n))"
    by (rule ramp_inv_main)+
  have range: "0 \<le> brightness (main n) \<and> brightness (main n) \<le> 255"
    using inv by (rule ramp_inv_brightness)
  have stepped: "0 \<le> brightness (main n) + direction (main n) * STEP \<and>
      brightness (main n) + direction (main n) * STEP \<le> 255"
    using inv by (rule ramp_inv_next_brightness)
  have d: "direction (main n) = 1 \<or> direction (main n) = - 1"
    using inv by (auto simp: ramp_inv_def)
  have d': "direction (main (Suc n)) = 1 \<or> direction (main (Suc n)) = - 1"
    using inv' by (auto simp: ramp_inv_def)
  have "direction (main (Suc n)) = - direction (main n) \<longleftrightarrow>
        direction (main (Suc n)) \<noteq> direction (main n)"
    using d d' by auto
  then have flip: "direction (main (Suc n)) = - direction (main n) \<longleftrightarrow>
        brightness (main (Suc n)) \<noteq> brightness (main n) \<and>
        (brightness (main (Suc n)) = 0 \<or> brightness (main (Suc n)) = 255)"
    using flip_iff_touch [OF inv] by (simp add: main_Suc)
  from start range stepped d flip show ?thesis by simp
qed

text \<open>
  C5. With \<open>STEP = 1\<close> and \<open>UPDATE_EVERY = 15\<close>, after \<open>15 * 255\<close> iterations the brightness
  is 255 and the direction \<open>-1\<close>, and \<open>LED_On_1\<close> is the only call to LED1 made so far. One
  iteration earlier the brightness was 254, the direction \<open>+1\<close> and LED1 had not been
  called: the call is the last one of iteration \<open>15 * 255\<close>.
\<close>

theorem main_first_peak:
  "STEP = 1 \<and> UPDATE_EVERY = 15
   \<and> brightness (main (15 * 255)) = 255 \<and> direction (main (15 * 255)) = - 1
   \<and> LED1_calls (calls (main (15 * 255))) = [LED_On_1]
   \<and> LED1_calls (calls (main (15 * 255 - 1))) = []
   \<and> brightness (main (15 * 255 - 1)) = 254 \<and> direction (main (15 * 255 - 1)) = 1
   \<and> iteration_calls (main (15 * 255 - 1)) =
       [LED_On_2, Call_Delay_us 498, LED_Off_2, Call_Delay_us 2, LED_On_1]"
  by (simp add: main_at_peak main_before_peak STEP_def UPDATE_EVERY_def)

text \<open>
  C6. In an iteration that updates the brightness (the counter reaches \<open>UPDATE_EVERY\<close>): a
  stepped brightness of 255 or more becomes 255, the direction \<open>-1\<close>, and \<open>LED_On_1\<close> is
  called; a stepped brightness of 0 or less becomes 0, the direction \<open>+1\<close>, and \<open>LED_Off_1\<close>
  is called. An iteration calls LED1 in these two cases only, and in the running loop
  \<open>LED_On_1\<close> is called exactly in the iterations that bring the brightness to 255,
  \<open>LED_Off_1\<close> exactly in those that bring it to 0.
\<close>

theorem loop_body_boundary_policy:
  "(UPDATE_EVERY \<le> counter s + 1 \<and> 255 \<le> brightness s + direction s * STEP \<longrightarrow>
      brightness (loop_body s) = 255 \<and> direction (loop_body s) = - 1 \<and>
      LED1_calls (iteration_calls s) = [LED_On_1])
   \<and> (UPDATE_EVERY \<le> counter s + 1 \<and> brightness s + direction s * STEP \<le> 0 \<longrightarrow>
      brightness (loop_body s) = 0 \<and> direction (loop_body s) = 1 \<and>
      LED1_calls (iteration_calls s) = [LED_Off_1])
   \<and> (LED1_calls (iteration_calls s) \<noteq> [] \<longleftrightarrow>
      UPDATE_EVERY \<le> counter s + 1 \<and>
      (255 \<le> brightness s + direction s * STEP \<or> brightness s + direction s * STEP \<le> 0))
   \<and> (LED_On_1 \<in> set (iteration_calls (main n)) \<longleftrightarrow>
      brightness (main (Suc n)) = 255 \<and> brightness (main n) \<noteq> 255)
   \<and> (LED_Off_1 \<in> set (iteration_calls (main n)) \<longleftrightarrow>
      brightness (main (Suc n)) = 0 \<and> brightness (main n) \<noteq> 0)"
proof -
  have a: "brightness (loop_body s) = 255 \<and> direction (loop_body s) = - 1 \<and>
      LED1_calls (iteration_calls s) = [LED_On_1]"
    if "UPDATE_EVERY \<le> counter s + 1" "255 \<le> brightness s + direction s * STEP"
    by (simp add: loop_body_max [OF that] iteration_calls_max [OF that] LED1_calls_after_pwm)
  have b: "brightness (loop_body s) = 0 \<and> direction (loop_body s) = 1 \<and>
      LED1_calls (iteration_calls s) = [LED_Off_1]"
    if "UPDATE_EVERY \<le> counter s + 1" "brightness s + direction s * STEP \<le> 0"
    by (simp add: loop_body_min [OF that] iteration_calls_min [OF that] LED1_calls_after_pwm)
  have c: "LED1_calls (iteration_calls s) \<noteq> [] \<longleftrightarrow>
      UPDATE_EVERY \<le> counter s + 1 \<and>
      (255 \<le> brightness s + direction s * STEP \<or> brightness s + direction s * STEP \<le> 0)"
  proof (cases s rule: loop_body_cases)
    case hold
    then show ?thesis by (simp add: iteration_calls_hold LED1_calls_pwm_calls)
  next
    case max
    then show ?thesis by (simp add: iteration_calls_max LED1_calls_after_pwm)
  next
    case min
    then show ?thesis by (simp add: iteration_calls_min LED1_calls_after_pwm)
  next
    case mid
    then show ?thesis by (simp add: iteration_calls_mid LED1_calls_pwm_calls)
  qed
  let ?s = "main n"
  have inv: "ramp_inv ?s" by (rule ramp_inv_main)
  have d: "(LED_On_1 \<in> set (iteration_calls ?s) \<longleftrightarrow>
             brightness (loop_body ?s) = 255 \<and> brightness ?s \<noteq> 255)
         \<and> (LED_Off_1 \<in> set (iteration_calls ?s) \<longleftrightarrow>
             brightness (loop_body ?s) = 0 \<and> brightness ?s \<noteq> 0)"
  proof (cases ?s rule: loop_body_cases)
    case hold
    then show ?thesis
      by (simp add: iteration_calls_hold loop_body_hold LED1_not_in_pwm_calls)
  next
    case max
    with inv have "brightness ?s = 254" by (auto simp: ramp_inv_def STEP_def)
    then show ?thesis
      by (simp add: iteration_calls_max [OF max] loop_body_max [OF max] LED1_not_in_pwm_calls)
  next
    case min
    with inv have "brightness ?s = 1" by (auto simp: ramp_inv_def STEP_def)
    then show ?thesis
      by (simp add: iteration_calls_min [OF min] loop_body_min [OF min] LED1_not_in_pwm_calls)
  next
    case mid
    then show ?thesis
      by (simp add: iteration_calls_mid [OF mid] loop_body_mid [OF mid] LED1_not_in_pwm_calls)
  qed
  from a b c d show ?thesis by (simp add: main_Suc)
qed

theorem loop_body_boundary_policy_witness:
  "UPDATE_EVERY \<le> counter (main 3824) + 1
   \<and> 255 \<le> brightness (main 3824) + direction (main 3824) * STEP
   \<and> brightness (loop_body (main 3824)) = 255 \<and> direction (loop_body (main 3824)) = - 1
   \<and> LED1_calls (iteration_calls (main 3824)) = [LED_On_1]
   \<and> UPDATE_EVERY \<le> counter (main 7649) + 1
   \<and> brightness (main 7649) + direction (main 7649) * STEP \<le> 0
   \<and> brightness (loop_body (main 7649)) = 0 \<and> direction (loop_body (main 7649)) = 1
   \<and> LED1_calls (iteration_calls (main 7649)) = [LED_Off_1]"
  using loop_body_boundary_policy [of "main 3824" 0] loop_body_boundary_policy [of "main 7649" 0]
    main_last_rising_step main_last_falling_step
  by simp

text \<open>
  C8. The calls of every iteration of the running loop are those of the PWM period for the
  current brightness (\<open>LED_On_2\<close> and a delay of \<open>on_time\<close>, then \<open>LED_Off_2\<close> and a delay of
  \<open>off_time\<close>, a phase left out when its duration is zero), followed only by the iteration's
  call to LED1, if any. The durations reach \<open>Delay_us\<close> unchanged by the conversion to
  \<open>uint32_t\<close>, and \<open>main\<close> never calls \<open>Delay_us\<close> with 0.
\<close>

theorem main_pwm_phases:
  "iteration_calls (main n) =
     pwm_calls (brightness (main n)) @ LED1_calls (iteration_calls (main n))
   \<and> uint (word_of_int (on_time (brightness (main n))) :: uint32_t) = on_time (brightness (main n))
   \<and> uint (word_of_int (off_time (brightness (main n))) :: uint32_t) = off_time (brightness (main n))
   \<and> Call_Delay_us 0 \<notin> set (calls (main n))"
proof -
  have b: "0 \<le> brightness (main n)" "brightness (main n) \<le> 255"
    using ramp_inv_brightness [OF ramp_inv_main, of n] by simp_all
  have on: "uint (word_of_int (on_time (brightness (main n))) :: uint32_t)
      = on_time (brightness (main n))"
    using on_time_bounds [OF b] by (simp add: word_of_int_small)
  have off: "uint (word_of_int (off_time (brightness (main n))) :: uint32_t)
      = off_time (brightness (main n))"
    using off_time_bounds [OF b] by (simp add: word_of_int_small)
  from on off iteration_calls_split [of "main n"] calls_main_no_zero_delay [of n]
  show ?thesis by simp
qed

text \<open>
  C9. An iteration that starts with direction \<open>+1\<close> does not lower the brightness, one that
  starts with direction \<open>-1\<close> does not raise it; the brightness stays within 0 and 255; and
  over any number of iterations the direction has changed exactly as often as the brightness
  has moved onto a bound (the start at brightness 0 is where the loop begins, not a move
  onto the bound).
\<close>

theorem main_brightness_monotone:
  "(direction (main n) = 1 \<longrightarrow> brightness (main n) \<le> brightness (main (Suc n)))
   \<and> (direction (main n) = - 1 \<longrightarrow> brightness (main (Suc n)) \<le> brightness (main n))
   \<and> 0 \<le> brightness (main n) \<and> brightness (main n) \<le> 255
   \<and> flips n = touches n"
  using brightness_monotone [OF ramp_inv_main, of n] ramp_inv_brightness [OF ramp_inv_main, of n]
  by (simp add: main_Suc flips_touches)

theorem main_brightness_monotone_witness:
  "direction (main 0) = 1 \<and> brightness (main 0) \<le> brightness (main (Suc 0))
   \<and> direction (main 3825) = - 1 \<and> brightness (main (Suc 3825)) \<le> brightness (main 3825)
   \<and> touches 3825 = 1"
  using main_brightness_monotone [of 0] main_brightness_monotone [of 3825]
  by (simp add: main_at_peak main_0 main_start_def do_call_def flips_first_peak)

end
